theory Spec2Isabelle
  imports Main
begin

section \<open>Text\<close>

text \<open>
  A Python \<open>str\<close> is a sequence of code points. The development models the code points
  U+0000 .. U+00FF: a \<^typ>\<open>char\<close> stands for the code point with the same number
  (so \<open>CHR 0xB0\<close> is the degree sign and \<open>CHR 0xB7\<close> the middle dot of the unit
  vocabulary), a \<^typ>\<open>string\<close> for a \<open>str\<close>, and \<open>length\<close> counts code points.
  The character classes below are those of Python 3 on that range: \<open>str.isspace\<close>
  (which is also the class \<open>\s\<close> of a str pattern), the decimal digits of \<open>\d\<close>, the
  word characters of \<open>\w\<close> (alphanumeric or underscore) and \<open>str.lower\<close>.
\<close>

definition code :: "char \<Rightarrow> nat" where
  "code c = of_char c"

definition isspace :: "char \<Rightarrow> bool" where
  "isspace c = (let n = code c in (9 \<le> n \<and> n \<le> 13) \<or> (28 \<le> n \<and> n \<le> 32) \<or> n = 133 \<or> n = 160)"

definition isdecimal :: "char \<Rightarrow> bool" where
  "isdecimal c = (let n = code c in 48 \<le> n \<and> n \<le> 57)"

definition isword :: "char \<Rightarrow> bool" where
  "isword c = (let n = code c in
     (48 \<le> n \<and> n \<le> 57) \<or> (65 \<le> n \<and> n \<le> 90) \<or> n = 95 \<or> (97 \<le> n \<and> n \<le> 122) \<or>
     n = 170 \<or> n = 178 \<or> n = 179 \<or> n = 181 \<or> n = 185 \<or> n = 186 \<or> n = 188 \<or> n = 189 \<or> n = 190 \<or>
     (192 \<le> n \<and> n \<le> 214) \<or> (216 \<le> n \<and> n \<le> 246) \<or> (248 \<le> n \<and> n \<le> 255))"

definition char_lower :: "char \<Rightarrow> char" where
  "char_lower c = (let n = code c in
     if (65 \<le> n \<and> n \<le> 90) \<or> (192 \<le> n \<and> n \<le> 214) \<or> (216 \<le> n \<and> n \<le> 222)
     then char_of (n + 32) else c)"

definition lower :: "string \<Rightarrow> string" where
  "lower s = map char_lower s"

definition strip :: "string \<Rightarrow> string" where
  "strip s = rev (dropWhile isspace (rev (dropWhile isspace s)))"

section \<open>Dictionaries, sets and JSON values\<close>

text \<open>
  A Python \<open>dict\<close> keeps its keys in insertion order and the loops of the filter iterate
  in that order, so a dict is an association list: \<open>d.get(k)\<close> is \<^const>\<open>map_of\<close>, and
  \<open>d[k] = v\<close> replaces the value of an existing key in place and appends a new key.
  A Python \<open>set\<close> is the list of its elements in iteration order (which Python leaves
  unspecified); statements about a set are made on the \<^const>\<open>set\<close> of that list.
\<close>

type_synonym ('k, 'v) dict = "('k \<times> 'v) list"

fun dict_set :: "'k \<Rightarrow> 'v \<Rightarrow> ('k, 'v) dict \<Rightarrow> ('k, 'v) dict" where
  "dict_set k v [] = [(k, v)]"
| "dict_set k v ((k', v') # d) = (if k' = k then (k, v) # d else (k', v') # dict_set k v d)"

definition set_add :: "'a \<Rightarrow> 'a list \<Rightarrow> 'a list" where
  "set_add x xs = (if x \<in> set xs then xs else xs @ [x])"

definition set_update :: "'a list \<Rightarrow> 'a list \<Rightarrow> 'a list" where
  "set_update xs ys = fold set_add ys xs"

text \<open>
  The synonym file is parsed JSON; the builder tests the values it finds with
  \<open>isinstance\<close>, so the model keeps the JSON value kinds apart (integer and floating
  numbers answer every such test alike and share one constructor).
\<close>

datatype json =
    JNull
  | JBool bool
  | JNum int
  | JStr string
  | JList "json list"
  | JDict "(string \<times> json) list"

section \<open>Synonym graph and search-term expansion\<close>

text \<open>\<open>[s for s in syn_list if isinstance(s, str)]\<close>\<close>

fun str_entries :: "json list \<Rightarrow> string list" where
  "str_entries [] = []"
| "str_entries (JStr s # js) = s # str_entries js"
| "str_entries (_ # js) = str_entries js"

text \<open>
  The two nested loops that flatten the categories into \<open>all_mappings\<close>: a category
  whose value is not a dict and a canonical whose value is not a list are skipped.
\<close>

fun flatten_mappings :: "(string, json) dict \<Rightarrow> (string, string list) dict \<Rightarrow> (string, string list) dict" where
  "flatten_mappings [] all_mappings = all_mappings"
| "flatten_mappings ((canonical, syn_list) # mappings) all_mappings =
     flatten_mappings mappings
       (case syn_list of
          JList l \<Rightarrow> dict_set canonical (str_entries l) all_mappings
        | _ \<Rightarrow> all_mappings)"

fun flatten_categories :: "(string, json) dict \<Rightarrow> (string, string list) dict \<Rightarrow> (string, string list) dict" where
  "flatten_categories [] all_mappings = all_mappings"
| "flatten_categories ((category, mappings) # synonyms_data) all_mappings =
     flatten_categories synonyms_data
       (case mappings of
          JDict m \<Rightarrow> flatten_mappings m all_mappings
        | _ \<Rightarrow> all_mappings)"

text \<open>
  The reverse index \<open>term_to_canonical\<close>. \<open>claim k canonical\<close> is the guarded
  assignment \<open>if k not in term_to_canonical: term_to_canonical[k] = canonical\<close>.
\<close>

definition claim :: "string \<Rightarrow> string \<Rightarrow> (string, string) dict \<Rightarrow> (string, string) dict" where
  "claim k canonical term_to_canonical =
     (if map_of term_to_canonical k = None then term_to_canonical @ [(k, canonical)]
      else term_to_canonical)"

fun claim_syns :: "string \<Rightarrow> string list \<Rightarrow> (string, string) dict \<Rightarrow> (string, string) dict" where
  "claim_syns canonical [] term_to_canonical = term_to_canonical"
| "claim_syns canonical (s # syns) term_to_canonical =
     claim_syns canonical syns (claim (lower s) canonical term_to_canonical)"

fun build_index :: "(string, string list) dict \<Rightarrow> (string, string) dict \<Rightarrow> (string, string) dict" where
  "build_index [] term_to_canonical = term_to_canonical"
| "build_index ((canonical, syns) # all_mappings) term_to_canonical =
     build_index all_mappings
       (claim_syns canonical syns (claim (lower canonical) canonical term_to_canonical))"

text \<open>\<open>requested_lower = [r.strip().lower() for r in requested if r.strip()]\<close>\<close>

definition requested_lower :: "string list \<Rightarrow> string list" where
  "requested_lower requested = map (\<lambda>r. lower (strip r)) (filter (\<lambda>r. strip r \<noteq> []) requested)"

text \<open>
  The group of a canonical, \<open>{canonical} | set(all_mappings.get(canonical, []))\<close>, and
  the loop over the requested terms. The test \<open>if canonical:\<close> is Python truthiness:
  it fails for a missing key and for the empty string alike.
\<close>

definition group_of :: "(string, string list) dict \<Rightarrow> string \<Rightarrow> string list" where
  "group_of all_mappings canonical =
     set_update [canonical] (case map_of all_mappings canonical of None \<Rightarrow> [] | Some syns \<Rightarrow> syns)"

fun collect_terms ::
  "(string, string) dict \<Rightarrow> (string, string list) dict \<Rightarrow> string list \<Rightarrow> string list \<Rightarrow> string list" where
  "collect_terms term_to_canonical all_mappings [] search_terms = search_terms"
| "collect_terms term_to_canonical all_mappings (req # reqs) search_terms =
     collect_terms term_to_canonical all_mappings reqs
       (case map_of term_to_canonical req of
          None \<Rightarrow> set_add req search_terms
        | Some canonical \<Rightarrow>
            if canonical \<noteq> [] then set_update search_terms (group_of all_mappings canonical)
            else set_add req search_terms)"

definition build_property_search_terms :: "string list \<Rightarrow> (string, json) dict \<Rightarrow> string list" where
  "build_property_search_terms requested synonyms_data =
     (let all_mappings = flatten_categories synonyms_data [];
          term_to_canonical = build_index all_mappings []
      in collect_terms term_to_canonical all_mappings (requested_lower requested) [])"

text \<open>
  Two notions used to state the properties of the expander: a group
  \<open>(canonical, syns)\<close> of \<open>all_mappings\<close> claims the lowercase string \<open>t\<close> when
  \<open>t\<close> is the lowercase form of the canonical or of one of its synonyms; and the terms
  that one requested term adds to \<open>search_terms\<close> (the body of the loop above).
\<close>

definition claims :: "string \<Rightarrow> string \<times> string list \<Rightarrow> bool" where
  "claims t = (\<lambda>(canonical, syns). t = lower canonical \<or> t \<in> set (map lower syns))"

definition term_contribution :: "(string, string) dict \<Rightarrow> (string, string list) dict \<Rightarrow> string \<Rightarrow> string list" where
  "term_contribution idx am req = (case map_of idx req of None \<Rightarrow> [req]
      | Some c \<Rightarrow> if c \<noteq> [] then group_of am c else [req])"


section \<open>Regular expressions\<close>

text \<open>
  The filter finds its three signals and its sentence boundaries with regular
  expressions of Python's \<open>re\<close> module. A pattern is modelled by its syntax tree and
  matched by a backtracking matcher that returns the list of all ways a pattern
  matches at a position, in the order in which \<open>re\<close> tries them (greedy repetition
  longest first, alternatives left to right): the head of the list is the match that
  \<open>re\<close> reports, and the list is empty exactly when \<open>re\<close> finds no match there.
  Every repetition in the patterns of the filter is over a single character class, and
  the classes \<open>\d\<close>, \<open>\s\<close> and \<open>[^)]\<close> used under \<open>re.I\<close> do not depend on case.
\<close>

datatype charset =
    CDigit
  | CSpace
  | COneOf string
  | CNoneOf string
  | CRange char char

fun in_charset :: "charset \<Rightarrow> char \<Rightarrow> bool" where
  "in_charset CDigit c = isdecimal c"
| "in_charset CSpace c = isspace c"
| "in_charset (COneOf cs) c = (c \<in> set cs)"
| "in_charset (CNoneOf cs) c = (c \<notin> set cs)"
| "in_charset (CRange lo hi) c = (code lo \<le> code c \<and> code c \<le> code hi)"

datatype regex =
    Eps
  | Lit char
  | Cls charset
  | WordB
  | LookBehind charset
  | LookAhead charset
  | Seq regex regex
  | Alt regex regex
  | Opt regex
  | Star charset
  | Plus charset
  | Group nat regex

text \<open>
  A matcher state: the position reached, the character before it (none at the start
  of the string), the rest of the string from the position on, and the groups captured
  so far as triples (group number, start, end).
\<close>

datatype mstate = MState (pos: nat) (prev: "char option") (rest: string) (caps: "(nat \<times> nat \<times> nat) list")

text \<open>\<open>\b\<close>: exactly one of the two neighbouring characters is a word character.\<close>

definition at_boundary :: "char option \<Rightarrow> string \<Rightarrow> bool" where
  "at_boundary p r =
     ((case p of None \<Rightarrow> False | Some c \<Rightarrow> isword c) \<noteq> (case r of [] \<Rightarrow> False | c # _ \<Rightarrow> isword c))"

definition lit_eq :: "bool \<Rightarrow> char \<Rightarrow> char \<Rightarrow> bool" where
  "lit_eq ignorecase c x = (if ignorecase then char_lower x = char_lower c else x = c)"

fun star_from :: "charset \<Rightarrow> nat \<Rightarrow> char option \<Rightarrow> (nat \<times> nat \<times> nat) list \<Rightarrow> string \<Rightarrow> mstate list" where
  "star_from cs p pv c [] = [MState p pv [] c]"
| "star_from cs p pv c (x # xs) =
     (if in_charset cs x then star_from cs (Suc p) (Some x) c xs @ [MState p pv (x # xs) c]
      else [MState p pv (x # xs) c])"

definition star_states :: "charset \<Rightarrow> mstate \<Rightarrow> mstate list" where
  "star_states cs st = star_from cs (pos st) (prev st) (caps st) (rest st)"

fun rmatch :: "bool \<Rightarrow> regex \<Rightarrow> mstate \<Rightarrow> mstate list" where
  "rmatch ic Eps st = [st]"
| "rmatch ic (Lit c) st =
     (case rest st of
        [] \<Rightarrow> []
      | x # xs \<Rightarrow> if lit_eq ic c x then [MState (Suc (pos st)) (Some x) xs (caps st)] else [])"
| "rmatch ic (Cls cs) st =
     (case rest st of
        [] \<Rightarrow> []
      | x # xs \<Rightarrow> if in_charset cs x then [MState (Suc (pos st)) (Some x) xs (caps st)] else [])"
| "rmatch ic WordB st = (if at_boundary (prev st) (rest st) then [st] else [])"
| "rmatch ic (LookBehind cs) st =
     (case prev st of None \<Rightarrow> [] | Some p \<Rightarrow> if in_charset cs p then [st] else [])"
| "rmatch ic (LookAhead cs) st =
     (case rest st of [] \<Rightarrow> [] | x # _ \<Rightarrow> if in_charset cs x then [st] else [])"
| "rmatch ic (Seq r1 r2) st = concat (map (rmatch ic r2) (rmatch ic r1 st))"
| "rmatch ic (Alt r1 r2) st = rmatch ic r1 st @ rmatch ic r2 st"
| "rmatch ic (Opt r) st = rmatch ic r st @ [st]"
| "rmatch ic (Star cs) st = star_states cs st"
| "rmatch ic (Plus cs) st =
     (case rest st of
        [] \<Rightarrow> []
      | x # xs \<Rightarrow> if in_charset cs x then star_states cs (MState (Suc (pos st)) (Some x) xs (caps st)) else [])"
| "rmatch ic (Group g r) st =
     map (\<lambda>m. MState (pos m) (prev m) (rest m) ((g, pos st, pos m) # caps m)) (rmatch ic r st)"

text \<open>
  \<open>pattern.search(s)\<close>: the first position, from the left, at which the pattern
  matches, with the match found there; \<open>None\<close> when there is none.
\<close>

fun search_from :: "bool \<Rightarrow> regex \<Rightarrow> nat \<Rightarrow> char option \<Rightarrow> string \<Rightarrow> (nat \<times> mstate) option" where
  "search_from ic r p pv [] =
     (case rmatch ic r (MState p pv [] []) of [] \<Rightarrow> None | m # _ \<Rightarrow> Some (p, m))"
| "search_from ic r p pv (x # xs) =
     (case rmatch ic r (MState p pv (x # xs) []) of
        [] \<Rightarrow> search_from ic r (Suc p) (Some x) xs
      | m # _ \<Rightarrow> Some (p, m))"

definition re_search :: "bool \<Rightarrow> regex \<Rightarrow> string \<Rightarrow> (nat \<times> mstate) option" where
  "re_search ic r s = search_from ic r 0 None s"

text \<open>
  \<open>re.finditer\<close>: the non-overlapping matches from left to right, each as its start
  position and its final state. After a match that consumed input the scan goes on
  from the end of the match. (The patterns that the filter iterates never match the
  empty string; after an empty match the model moves on by one character.)
\<close>

function finditer :: "bool \<Rightarrow> regex \<Rightarrow> mstate \<Rightarrow> (nat \<times> mstate) list" where
  "finditer ic r st =
     (case rmatch ic r st of
        m # _ \<Rightarrow>
          (if length (rest m) < length (rest st)
           then (pos st, m) # finditer ic r (MState (pos m) (prev m) (rest m) [])
           else (pos st, m) #
             (case rest st of [] \<Rightarrow> [] | x # xs \<Rightarrow> finditer ic r (MState (Suc (pos st)) (Some x) xs [])))
      | [] \<Rightarrow>
          (case rest st of [] \<Rightarrow> [] | x # xs \<Rightarrow> finditer ic r (MState (Suc (pos st)) (Some x) xs [])))"
  by pat_completeness auto
termination
  by (relation "measure (\<lambda>(ic, r, st). length (rest st))") auto

declare finditer.simps [simp del]

definition re_finditer :: "bool \<Rightarrow> regex \<Rightarrow> string \<Rightarrow> (nat \<times> mstate) list" where
  "re_finditer ic r s = finditer ic r (MState 0 None s [])"

text \<open>\<open>m.group(g)\<close> for a group that took part in the match.\<close>

definition group_text :: "string \<Rightarrow> mstate \<Rightarrow> nat \<Rightarrow> string" where
  "group_text s m g =
     (case find (\<lambda>(g', i, j). g' = g) (caps m) of
        None \<Rightarrow> []
      | Some (g', i, j) \<Rightarrow> take (j - i) (drop i s))"

text \<open>
  \<open>re.sub(pattern, repl, s)\<close> with a fixed replacement string, and
  \<open>re.split(pattern, s)\<close> for a pattern without capturing groups: the string is cut at
  the matches that \<open>finditer\<close> yields.
\<close>

fun sub_build :: "string \<Rightarrow> string \<Rightarrow> nat \<Rightarrow> (nat \<times> mstate) list \<Rightarrow> string" where
  "sub_build repl s p [] = drop p s"
| "sub_build repl s p ((i, m) # ms) = take (i - p) (drop p s) @ repl @ sub_build repl s (pos m) ms"

definition re_sub :: "bool \<Rightarrow> regex \<Rightarrow> string \<Rightarrow> string \<Rightarrow> string" where
  "re_sub ic r repl s = sub_build repl s 0 (re_finditer ic r s)"

fun split_build :: "string \<Rightarrow> nat \<Rightarrow> (nat \<times> mstate) list \<Rightarrow> string list" where
  "split_build s p [] = [drop p s]"
| "split_build s p ((i, m) # ms) = take (i - p) (drop p s) # split_build s (pos m) ms"

definition re_split :: "bool \<Rightarrow> regex \<Rightarrow> string \<Rightarrow> string list" where
  "re_split ic r s = split_build s 0 (re_finditer ic r s)"

text \<open>Pattern text: a literal string, a sequence, and an alternation \<open>r | r1 | ...\<close>.\<close>

fun lits :: "string \<Rightarrow> regex" where
  "lits [] = Eps"
| "lits (c # cs) = Seq (Lit c) (lits cs)"

fun seqs :: "regex list \<Rightarrow> regex" where
  "seqs [] = Eps"
| "seqs (r # rs) = Seq r (seqs rs)"

fun alts :: "regex \<Rightarrow> regex list \<Rightarrow> regex" where
  "alts r [] = r"
| "alts r (r' # rs) = Alt r (alts r' rs)"

section \<open>Sentence segmentation\<close>

text \<open>
  \<open>_split_into_sentences\<close>: whitespace runs \<open>\s+\<close> become one space, the text is split
  at \<open>(?<=[.!?])\s+(?=[A-Z])\<close>, and the trimmed parts longer than 15 are kept.
\<close>

definition WS_RUN :: regex where
  "WS_RUN = Plus CSpace"

definition SENTENCE_BREAK :: regex where
  "SENTENCE_BREAK = seqs [LookBehind (COneOf ''.!?''), Plus CSpace, LookAhead (CRange CHR ''A'' CHR ''Z'')]"

definition split_into_sentences :: "string \<Rightarrow> string list" where
  "split_into_sentences text =
     (if text = [] then []
      else let text' = re_sub False WS_RUN '' '' text;
               parts = re_split False SENTENCE_BREAK text'
           in map strip (filter (\<lambda>p. 15 < length (strip p)) parts))"

section \<open>Triple detection\<close>

text \<open>
  \<open>NUM_UNIT\<close> is
  \<open>(?i)\b\d+(\.\d+)?\s*(\<degree>c|\<degree>C|K|GPa|MPa|kDa|Da|kg/mol|g/mol|Pa\<cdot>s|Pa\s*s|wt%|mol%)\b\<close>
  (with the degree sign U+00B0 and the middle dot U+00B7), compiled with the inline
  flag \<open>(?i)\<close>; \<open>NUM_ONLY\<close> is \<open>\b\d+(\.\d+)?\b\<close>, without flags.
\<close>

definition NUM_UNIT :: regex where
  "NUM_UNIT = seqs
     [WordB, Plus CDigit, Opt (Group 1 (seqs [Lit CHR ''.'', Plus CDigit])), Star CSpace,
      Group 2 (alts (lits [CHR 0xB0, CHR ''c''])
        [lits [CHR 0xB0, CHR ''C''], lits ''K'', lits ''GPa'', lits ''MPa'', lits ''kDa'', lits ''Da'',
         lits ''kg/mol'', lits ''g/mol'', lits [CHR ''P'', CHR ''a'', CHR 0xB7, CHR ''s''],
         seqs [lits ''Pa'', Star CSpace, lits ''s''], lits ''wt%'', lits ''mol%'']),
      WordB]"

definition NUM_ONLY :: regex where
  "NUM_ONLY = seqs [WordB, Plus CDigit, Opt (Group 1 (seqs [Lit CHR ''.'', Plus CDigit])), WordB]"

text \<open>
  \<open>_regex_poly_patterns\<close>: the matches of \<open>\bpoly\s*\(\s*([^)]+)\)\<close> and of
  \<open>\b(poly(?:vinyl|styrene|ethylene|propylene|ester|amide|ether|urethane|imide|saccharide))\b\<close>,
  both with \<open>re.I\<close>.
\<close>

definition POLY_PAREN :: regex where
  "POLY_PAREN = seqs
     [WordB, lits ''poly'', Star CSpace, Lit CHR ''('', Star CSpace,
      Group 1 (Plus (CNoneOf '')'')), Lit CHR '')'']"

definition POLY_CLASS :: regex where
  "POLY_CLASS = seqs
     [WordB,
      Group 1 (Seq (lits ''poly'')
        (alts (lits ''vinyl'')
          [lits ''styrene'', lits ''ethylene'', lits ''propylene'', lits ''ester'', lits ''amide'',
           lits ''ether'', lits ''urethane'', lits ''imide'', lits ''saccharide''])),
      WordB]"

definition regex_poly_patterns :: "string \<Rightarrow> string list" where
  "regex_poly_patterns sentence =
     map (\<lambda>(i, m). ''poly('' @ strip (group_text sentence m 1) @ '')'') (re_finditer True POLY_PAREN sentence) @
     map (\<lambda>(i, m). group_text sentence m 1) (re_finditer True POLY_CLASS sentence)"

definition POLYMER_TERMS :: "string list" where
  "POLYMER_TERMS =
     [''polymer'', ''polymers'', ''macromolecule'', ''macromolecules'', ''copolymer'',
      ''copolymers'', ''homopolymer'', ''homopolymers'', ''oligomer'', ''oligomers'']"

text \<open>
  \<open>_find_whole_word\<close>: the terms whose pattern \<open>\b + re.escape(term.lower()) + \b\<close>
  is found in the lowercased sentence; the escaped term matches itself, character by
  character.
\<close>

definition whole_word_pattern :: "string \<Rightarrow> regex" where
  "whole_word_pattern term = Seq WordB (Seq (lits (lower term)) WordB)"

definition find_whole_word :: "string \<Rightarrow> string list \<Rightarrow> string list" where
  "find_whole_word sentence terms =
     (let s_lower = lower sentence
      in filter (\<lambda>term. re_search False (whole_word_pattern term) s_lower \<noteq> None) terms)"

definition has_valid_triple :: "string \<Rightarrow> string list \<Rightarrow> bool" where
  "has_valid_triple sentence property_terms =
     (let polys = find_whole_word sentence POLYMER_TERMS @ regex_poly_patterns sentence
      in if polys = [] then False
         else let props = find_whole_word sentence property_terms
              in if props = [] then False
                 else let has_num = (re_search True NUM_UNIT sentence \<noteq> None \<or>
                                     re_search False NUM_ONLY sentence \<noteq> None)
                      in if \<not> has_num then False else True)"

text \<open>
  The three signals of the docstring of \<open>_has_valid_triple\<close>, each as the test the
  function makes for it: a polymer mention (\<open>polys\<close> not empty), a property term
  (\<open>props\<close> not empty), a numeric value (\<open>has_num\<close>).
\<close>

definition polymer_signal :: "string \<Rightarrow> bool" where
  "polymer_signal sentence = (find_whole_word sentence POLYMER_TERMS @ regex_poly_patterns sentence \<noteq> [])"

definition property_signal :: "string \<Rightarrow> string list \<Rightarrow> bool" where
  "property_signal sentence property_terms = (find_whole_word sentence property_terms \<noteq> [])"

definition value_signal :: "string \<Rightarrow> bool" where
  "value_signal sentence =
     (re_search True NUM_UNIT sentence \<noteq> None \<or> re_search False NUM_ONLY sentence \<noteq> None)"

section \<open>Filtering papers\<close>

text \<open>
  The structured form of a paper, as \<open>RSCSectionParser(path).to_dict()\<close> returns it:
  a dict that may hold \<open>meta\<close>, \<open>sections\<close> and \<open>tables\<close>.
\<close>

record parsed_paper =
  meta :: "(string, string) dict option"
  sections :: "(string, string) dict option"
  tables :: "(string, string) dict list option"

text \<open>\<open>" ".join(parts)\<close>\<close>

fun join_space :: "string list \<Rightarrow> string" where
  "join_space [] = []"
| "join_space [p] = p"
| "join_space (p # ps) = p @ '' '' @ join_space ps"

definition build_full_text ::
  "(string, string) dict \<Rightarrow> (string, string) dict \<Rightarrow> (string, string) dict list \<Rightarrow> string" where
  "build_full_text meta_d sections_d tables_l =
     (let parts = [case map_of meta_d ''title'' of None \<Rightarrow> [] | Some t \<Rightarrow> t];
          parts = parts @ map snd (filter (\<lambda>(section_name, section_text). strip section_text \<noteq> []) sections_d);
          parts = parts @ filter (\<lambda>content. content \<noteq> [])
                    (map (\<lambda>t. strip (case map_of t ''content'' of None \<Rightarrow> [] | Some c \<Rightarrow> c)) tables_l)
      in join_space parts)"

text \<open>
  \<open>is_paper_with_property_triples\<close>: the loop over the sentences returns at the first
  sentence that holds a triple.
\<close>

fun first_triple :: "string list \<Rightarrow> string list \<Rightarrow> bool \<times> string" where
  "first_triple [] property_terms = (False, ''no matching (polymer, property, value) triples'')"
| "first_triple (sent # sents) property_terms =
     (if has_valid_triple sent property_terms then (True, ''found (polymer, property, value) triple'')
      else first_triple sents property_terms)"

definition is_paper_with_property_triples :: "string \<Rightarrow> string list \<Rightarrow> bool \<times> string" where
  "is_paper_with_property_triples full_text property_terms =
     first_triple (split_into_sentences full_text) property_terms"

text \<open>
  \<open>_load_polymer_synonyms\<close>, on the parsed content of the synonym file (\<open>None\<close> when the
  file does not exist): the entries whose key starts with \<open>_\<close> and whose value is a dict.
\<close>

definition load_polymer_synonyms :: "(string, json) dict option \<Rightarrow> (string, json) dict" where
  "load_polymer_synonyms file =
     (case file of
        None \<Rightarrow> []
      | Some data \<Rightarrow>
          filter (\<lambda>(k, v). (case v of JDict _ \<Rightarrow> True | _ \<Rightarrow> False) \<and> take 1 k = ''_'') data)"

text \<open>
  \<open>filter_papers\<close>. The parser is not part of the filter: it is the parameter
  \<open>parse\<close>, which returns the structured paper or, when \<open>RSCSectionParser\<close> raises, the
  message of the exception (\<open>Inl\<close>). The function returns the passing list; the model
  returns the failing list with it (the source writes both to the output files).
  Progress messages on stderr are left out.
\<close>

fun filter_loop ::
  "('p \<Rightarrow> string + parsed_paper) \<Rightarrow> string list \<Rightarrow> 'p list \<Rightarrow> 'p list \<times> ('p \<times> string) list \<Rightarrow>
   'p list \<times> ('p \<times> string) list" where
  "filter_loop parse search_terms [] (passing, failing) = (passing, failing)"
| "filter_loop parse search_terms (path # html_files) (passing, failing) =
     (case parse path of
        Inl e \<Rightarrow> filter_loop parse search_terms html_files (passing, failing @ [(path, ''parse error: '' @ e)])
      | Inr result \<Rightarrow>
          (let meta_d = (case meta result of None \<Rightarrow> [] | Some d \<Rightarrow> d);
               sections_d = (case sections result of None \<Rightarrow> [] | Some d \<Rightarrow> d);
               tables_l = (case tables result of None \<Rightarrow> [] | Some l \<Rightarrow> l);
               full_text = build_full_text meta_d sections_d tables_l;
               (ok, reason) = is_paper_with_property_triples full_text search_terms
           in if ok then filter_loop parse search_terms html_files (passing @ [path], failing)
              else filter_loop parse search_terms html_files (passing, failing @ [(path, reason)])))"

definition filter_papers ::
  "('p \<Rightarrow> string + parsed_paper) \<Rightarrow> 'p list \<Rightarrow> string list \<Rightarrow> (string, json) dict option \<Rightarrow>
   'p list \<times> ('p \<times> string) list" where
  "filter_papers parse html_files property_terms synonyms_file =
     (let synonyms_data = load_polymer_synonyms synonyms_file;
          search_terms = build_property_search_terms property_terms synonyms_data;
          search_terms = (if search_terms = []
                          then fold set_add (map lower (filter (\<lambda>t. strip t \<noteq> []) property_terms)) []
                          else search_terms)
      in if html_files = [] then ([], [])
         else filter_loop parse search_terms html_files ([], []))"

section \<open>Properties of text\<close>

lemma code_char_of: "n < 256 \<Longrightarrow> code (char_of n) = n"
  by (simp add: code_def)

lemma code_lt: "code c < 256"
  by (simp add: code_def)

lemma isspace_char_lower: "isspace (char_lower c) = isspace c"
  using code_lt[of c] by (auto simp: isspace_def char_lower_def Let_def code_char_of)

lemma char_lower_idem: "char_lower (char_lower c) = char_lower c"
  using code_lt[of c] by (auto simp: char_lower_def Let_def code_char_of)

lemma lower_lower: "lower (lower s) = lower s"
  by (simp add: lower_def char_lower_idem)

lemma dropWhile_isspace_lower: "dropWhile isspace (lower s) = lower (dropWhile isspace s)"
  by (induction s) (auto simp: lower_def isspace_char_lower)

lemma strip_lower: "strip (lower s) = lower (strip s)"
proof -
  have r: "rev (lower t) = lower (rev t)" for t by (simp add: lower_def rev_map)
  show ?thesis unfolding strip_def by (simp add: dropWhile_isspace_lower r)
qed

lemma dropWhile_same_length: "length (dropWhile P xs) = length xs \<Longrightarrow> dropWhile P xs = xs"
  using length_dropWhile_le[of P "tl xs"] by (cases xs) (auto split: if_splits)

lemma strip_fix_iff: "strip s = s \<longleftrightarrow> (s = [] \<or> (\<not> isspace (hd s) \<and> \<not> isspace (last s)))"
proof
  assume a: "strip s = s"
  have l1: "length (dropWhile isspace (rev (dropWhile isspace s))) \<le> length (dropWhile isspace s)"
    using length_dropWhile_le[of isspace "rev (dropWhile isspace s)"] by simp
  have l2: "length (dropWhile isspace s) \<le> length s" by (rule length_dropWhile_le)
  from a have "length (strip s) = length s" by simp
  then have l3: "length (dropWhile isspace (rev (dropWhile isspace s))) = length s"
    by (simp add: strip_def)
  from l1 l2 l3 have e1: "dropWhile isspace s = s"
    by (intro dropWhile_same_length) simp
  with l3 have e2: "dropWhile isspace (rev s) = rev s"
    by (intro dropWhile_same_length) simp
  show "s = [] \<or> (\<not> isspace (hd s) \<and> \<not> isspace (last s))"
  proof (cases "s = []")
    case False
    with e1 have "\<not> isspace (hd s)" by (simp add: dropWhile_eq_self_iff)
    moreover from False e2 have "\<not> isspace (last s)" by (simp add: dropWhile_eq_self_iff hd_rev)
    ultimately show ?thesis by simp
  qed simp
next
  assume "s = [] \<or> (\<not> isspace (hd s) \<and> \<not> isspace (last s))"
  then show "strip s = s"
  proof
    assume "s = []" then show ?thesis by (simp add: strip_def)
  next
    assume h: "\<not> isspace (hd s) \<and> \<not> isspace (last s)"
    then have e1: "dropWhile isspace s = s" by (simp add: dropWhile_eq_self_iff)
    from h have e2: "dropWhile isspace (rev s) = rev s" by (cases "s = []") (simp_all add: dropWhile_eq_self_iff hd_rev)
    show ?thesis by (simp add: strip_def e1 e2)
  qed
qed

lemma strip_strip: "strip (strip s) = strip s"
proof -
  define t where "t = dropWhile isspace s"
  define u where "u = dropWhile isspace (rev t)"
  have su: "strip s = rev u" by (simp add: strip_def t_def u_def)
  show ?thesis
  proof (cases "u = []")
    case True
    with su have "strip s = []" by simp
    then show ?thesis by (metis strip_fix_iff)
  next
    case False
    then have hu: "\<not> isspace (hd u)" unfolding u_def by (rule hd_dropWhile)
    from False have tne: "t \<noteq> []" by (auto simp: u_def)
    then have ht: "\<not> isspace (hd t)" unfolding t_def by (rule hd_dropWhile)
    from False obtain x where x: "x \<in> set (rev t)" "\<not> isspace x"
      by (auto simp: u_def dropWhile_eq_Nil_conv)
    then have "last u = last (rev t)" unfolding u_def by (rule dropWhile_last)
    with tne have lu: "last u = hd t" by (simp add: last_rev)
    from False hu lu ht have "\<not> isspace (hd (rev u)) \<and> \<not> isspace (last (rev u))"
      by (simp add: hd_rev last_rev)
    then have "strip (rev u) = rev u" by (simp add: strip_fix_iff)
    with su show ?thesis by simp
  qed
qed

lemma strip_of_lower_fix: "strip (lower y) = lower y \<Longrightarrow> strip y = y"
proof -
  assume "strip (lower y) = lower y"
  then have "lower (strip y) = lower y" by (simp add: strip_lower)
  then have "length (strip y) = length y" by (metis length_map lower_def)
  then show ?thesis 
    by (metis dropWhile_same_length le_antisym length_dropWhile_le length_rev
        rev_swap strip_def)
qed

section \<open>Properties of the search-term expansion\<close>

subsection \<open>Sets and dictionaries\<close>

lemma set_set_add: "set (set_add x xs) = insert x (set xs)"
  by (auto simp: set_add_def)

lemma set_set_update: "set (set_update xs ys) = set xs \<union> set ys"
  unfolding set_update_def by (induction ys arbitrary: xs) (auto simp: set_set_add)

lemma set_group_of:
  "set (group_of am c) = insert c (case map_of am c of None \<Rightarrow> {} | Some syns \<Rightarrow> set syns)"
  by (simp add: group_of_def set_set_update split: option.splits)

lemma keys_dict_set: "set (map fst (dict_set k v d)) = insert k (set (map fst d))"
proof (induction d)
  case Nil
  show ?case by simp
next
  case (Cons a d)
  obtain k' v' where a: "a = (k', v')" by (cases a)
  show ?case
  proof (cases "k' = k")
    case True
    then show ?thesis by (simp add: a)
  next
    case False
    have "set (map fst (dict_set k v (a # d))) = insert k' (set (map fst (dict_set k v d)))"
      using False by (simp add: a)
    also have "\<dots> = insert k' (insert k (set (map fst d)))" by (simp only: Cons.IH)
    also have "\<dots> = insert k (set (map fst (a # d)))" by (simp add: a insert_commute)
    finally show ?thesis .
  qed
qed

lemma distinct_dict_set: "distinct (map fst d) \<Longrightarrow> distinct (map fst (dict_set k v d))"
proof (induction d)
  case Nil then show ?case by simp
next
  case (Cons a d)
  obtain k' v' where a: "a = (k', v')" by (cases a)
  from Cons have d: "distinct (map fst d)" and n: "k' \<notin> set (map fst d)" by (auto simp: a)
  show ?case
  proof (cases "k' = k")
    case True
    with d n show ?thesis by (simp add: a)
  next
    case False
    with n have "k' \<notin> set (map fst (dict_set k v d))" by (simp only: keys_dict_set) simp
    with False Cons.IH[OF d] show ?thesis by (simp add: a)
  qed
qed

lemma distinct_flatten_mappings:
  "distinct (map fst am) \<Longrightarrow> distinct (map fst (flatten_mappings m am))"
  by (induction m am rule: flatten_mappings.induct) (auto simp: distinct_dict_set split: json.splits)

lemma distinct_flatten_categories:
  "distinct (map fst am) \<Longrightarrow> distinct (map fst (flatten_categories d am))"
  by (induction d am rule: flatten_categories.induct) (auto simp: distinct_flatten_mappings split: json.splits)

subsection \<open>The reverse index\<close>

lemma map_of_claim:
  "map_of (claim k c idx) t = (case map_of idx t of Some v \<Rightarrow> Some v | None \<Rightarrow> if t = k then Some c else None)"
  by (auto simp: claim_def map_add_def split: option.splits)

lemma map_of_claim_syns:
  "map_of (claim_syns c syns idx) t =
     (case map_of idx t of Some v \<Rightarrow> Some v | None \<Rightarrow> if t \<in> set (map lower syns) then Some c else None)"
  by (induction syns arbitrary: idx) (auto simp: map_of_claim split: option.splits)

lemma map_of_build_index:
  "map_of (build_index am idx) t =
     (case map_of idx t of Some v \<Rightarrow> Some v | None \<Rightarrow> map_option fst (find (claims t) am))"
  by (induction am idx rule: build_index.induct)
     (auto simp: map_of_claim map_of_claim_syns claims_def split: option.splits)

lemma distinct_claim: "distinct (map fst idx) \<Longrightarrow> distinct (map fst (claim k c idx))"
  by (auto simp: claim_def map_of_eq_None_iff)

lemma distinct_claim_syns: "distinct (map fst idx) \<Longrightarrow> distinct (map fst (claim_syns c syns idx))"
  by (induction syns arbitrary: idx) (auto simp: distinct_claim)

lemma distinct_build_index: "distinct (map fst idx) \<Longrightarrow> distinct (map fst (build_index am idx))"
  by (induction am idx rule: build_index.induct) (auto simp: distinct_claim distinct_claim_syns)

lemma build_index_append: "build_index (am1 @ am2) idx = build_index am2 (build_index am1 idx)"
  by (induction am1 idx rule: build_index.induct) auto

lemma keys_lower_claim:
  "\<forall>k \<in> set (map fst idx). lower k = k \<Longrightarrow> lower k' = k' \<Longrightarrow> \<forall>k \<in> set (map fst (claim k' c idx)). lower k = k"
  by (auto simp: claim_def)

lemma keys_lower_claim_syns:
  "\<forall>k \<in> set (map fst idx). lower k = k \<Longrightarrow> \<forall>k \<in> set (map fst (claim_syns c syns idx)). lower k = k"
proof (induction syns arbitrary: idx)
  case Nil then show ?case by simp
next
  case (Cons s syns)
  have "\<forall>k \<in> set (map fst (claim (lower s) c idx)). lower k = k"
    using Cons.prems by (rule keys_lower_claim) (rule lower_lower)
  then show ?case unfolding claim_syns.simps by (rule Cons.IH)
qed

lemma keys_lower_build_index:
  "\<forall>k \<in> set (map fst idx). lower k = k \<Longrightarrow> \<forall>k \<in> set (map fst (build_index am idx)). lower k = k"
proof (induction am idx rule: build_index.induct)
  case (1 idx) then show ?case by simp
next
  case (2 c syns am idx)
  have "\<forall>k \<in> set (map fst (claim (lower c) c idx)). lower k = k"
    using "2.prems" by (rule keys_lower_claim) (rule lower_lower)
  then have "\<forall>k \<in> set (map fst (claim_syns c syns (claim (lower c) c idx))). lower k = k"
    by (rule keys_lower_claim_syns)
  then show ?case unfolding build_index.simps by (rule "2.IH")
qed

lemma index_find:
  "map_of (build_index am []) t = Some c \<Longrightarrow> \<exists>syns. find (claims t) am = Some (c, syns)"
  by (auto simp: map_of_build_index)

lemma find_claims_D:
  assumes "find (claims t) am = Some (c, syns)"
  shows "(c, syns) \<in> set am \<and> (t = lower c \<or> t \<in> set (map lower syns))"
proof -
  have "find P xs = Some y \<Longrightarrow> y \<in> set xs \<and> P y" for P and xs :: "(string \<times> string list) list" and y
    by (induction xs) (auto split: if_splits)
  from this[OF assms] show ?thesis by (simp add: claims_def)
qed

text \<open>
  C7. In the index built from \<open>all_mappings\<close> every key occurs once and is lowercase;
  the canonical a key maps to is the one of the first group, in processing order, that
  claims the key; and an entry, once made, survives the processing of any further
  groups \<open>am'\<close>.
\<close>

theorem term_index_first_claim_wins:
  "distinct (map fst (build_index am [])) \<and>
   (\<forall>k \<in> set (map fst (build_index am [])). lower k = k) \<and>
   map_of (build_index am []) t = map_option fst (find (claims t) am) \<and>
   (map_of (build_index am []) t = Some c \<longrightarrow> map_of (build_index (am @ am') []) t = Some c)"
proof (intro conjI impI)
  show "distinct (map fst (build_index am []))" by (rule distinct_build_index) simp
  show "\<forall>k \<in> set (map fst (build_index am [])). lower k = k" by (rule keys_lower_build_index) simp
  show "map_of (build_index am []) t = map_option fst (find (claims t) am)"
    by (simp add: map_of_build_index)
  assume "map_of (build_index am []) t = Some c"
  then show "map_of (build_index (am @ am') []) t = Some c"
    by (simp add: build_index_append map_of_build_index[of am' "build_index am []"])
qed

text \<open>
  C7 on the example of the source comment: \<open>Tg\<close> keeps \<open>tg\<close> although the later
  group \<open>TGA\<close> lists \<open>Tg\<close> as a synonym.
\<close>

theorem term_index_first_claim_wins_witness:
  "map_of (build_index [(''Tg'', [''glass transition'', ''T_g''])] []) ''tg'' = Some ''Tg'' \<and>
   map_of (build_index ([(''Tg'', [''glass transition'', ''T_g''])] @ [(''TGA'', [''Tg'', ''thermogravimetric analysis''])]) []) ''tg'' = Some ''Tg''"
proof -
  have h: "map_of (build_index [(''Tg'', [''glass transition'', ''T_g''])] []) ''tg'' = Some ''Tg''"
    by code_simp
  from term_index_first_claim_wins[of "[(''Tg'', [''glass transition'', ''T_g''])]" "''tg''" "''Tg''"
      "[(''TGA'', [''Tg'', ''thermogravimetric analysis''])]"] h
  show ?thesis by blast
qed

subsection \<open>The expanded set\<close>

lemma set_collect_terms:
  "set (collect_terms idx am reqs st) = set st \<union> (\<Union>req \<in> set reqs. set (term_contribution idx am req))"
  by (induction idx am reqs st rule: collect_terms.induct)
     (auto simp: term_contribution_def set_set_add set_set_update split: option.splits if_splits)

lemma requested_lower_stripped:
  assumes "req \<in> set (requested_lower R)"
  shows "strip req = req \<and> lower req = req \<and> req \<noteq> []"
proof -
  from assms obtain r where r: "req = lower (strip r)" "strip r \<noteq> []"
    by (auto simp: requested_lower_def)
  then show ?thesis by (simp add: strip_lower strip_strip lower_lower) (simp add: lower_def)
qed

lemma stripped_lower_in_requested:
  "y \<in> set R \<Longrightarrow> strip y \<noteq> [] \<Longrightarrow> lower (strip y) \<in> set (requested_lower R)"
  by (auto simp: requested_lower_def)

lemma in_search_terms_iff:
  "x \<in> set (build_property_search_terms R D) \<longleftrightarrow>
     (\<exists>req \<in> set (requested_lower R).
        x \<in> set (term_contribution (build_index (flatten_categories D []) []) (flatten_categories D []) req))"
  by (simp add: build_property_search_terms_def Let_def set_collect_terms)

lemma unresolved_term_included:
  assumes "r \<in> set R" "strip r \<noteq> []"
    and "map_of (build_index (flatten_categories D []) []) (lower (strip r)) = None"
  shows "lower (strip r) \<in> set (build_property_search_terms R D)"
proof -
  from assms(1,2) have "lower (strip r) \<in> set (requested_lower R)"
    by (rule stripped_lower_in_requested)
  with assms(3) show ?thesis
    unfolding in_search_terms_iff by (intro bexI[of _ "lower (strip r)"]) (simp_all add: term_contribution_def)
qed

lemma resolved_group_included:
  assumes "r \<in> set R" "strip r \<noteq> []"
    and "map_of (build_index (flatten_categories D []) []) (lower (strip r)) = Some c" "c \<noteq> []"
  shows "set (group_of (flatten_categories D []) c) \<subseteq> set (build_property_search_terms R D)"
proof
  fix x
  assume "x \<in> set (group_of (flatten_categories D []) c)"
  moreover from assms(1,2) have "lower (strip r) \<in> set (requested_lower R)"
    by (rule stripped_lower_in_requested)
  ultimately show "x \<in> set (build_property_search_terms R D)"
    using assms(3,4) unfolding in_search_terms_iff
    by (intro bexI[of _ "lower (strip r)"]) (simp_all add: term_contribution_def)
qed

lemma search_term_origin:
  assumes "x \<in> set (build_property_search_terms R D)"
  shows "(x \<in> set (requested_lower R) \<and> lower x = x) \<or>
         (\<exists>(c, syns) \<in> set (flatten_categories D []). x = c \<or> x \<in> set syns)"
proof -
  let ?G = "flatten_categories D []"
  let ?idx = "build_index ?G []"
  from assms obtain req where req: "req \<in> set (requested_lower R)" "x \<in> set (term_contribution ?idx ?G req)"
    unfolding in_search_terms_iff by blast
  show ?thesis
  proof (cases "\<exists>c. map_of ?idx req = Some c \<and> c \<noteq> []")
    case False
    with req(2) have "x = req" by (auto simp: term_contribution_def split: option.splits if_splits)
    with req(1) show ?thesis using requested_lower_stripped[of req R] by simp
  next
    case True
    then obtain c where c: "map_of ?idx req = Some c" "c \<noteq> []" by blast
    with req(2) have x: "x \<in> set (group_of ?G c)" by (simp add: term_contribution_def)
    from c(1) obtain syns where "find (claims req) ?G = Some (c, syns)"
      using index_find by blast
    then have m: "(c, syns) \<in> set ?G" using find_claims_D by blast
    show ?thesis
    proof (cases "x = c")
      case True
      with m show ?thesis by blast
    next
      case False
      with x obtain syns' where s: "map_of ?G c = Some syns'" "x \<in> set syns'"
        by (auto simp: set_group_of split: option.splits)
      from s(1) have "(c, syns') \<in> set ?G" by (rule map_of_SomeD)
      with s(2) show ?thesis by blast
    qed
  qed
qed

text \<open>
  C1 as stated fails: for the graph \<open>{"_thermal": {"Tg": ["glass transition"]}}\<close> and the
  requested term \<open>"tg"\<close> the returned set contains \<open>"Tg"\<close>, which is not lowercase.
\<close>

theorem expand_not_all_lowercase_counterexample:
  "''Tg'' \<in> set (build_property_search_terms [''tg'']
       [(''_thermal'', JDict [(''Tg'', JList [JStr ''glass transition''])])]) \<and>
   lower ''Tg'' \<noteq> ''Tg''"
  by code_simp

text \<open>
  C1 (as amended). Every string in the set returned by \<open>_build_property_search_terms\<close> is
  either the trimmed, lowercased form of a requested term (and so lowercase), or the
  canonical term or a synonym of a group of the flattened synonym graph, spelled exactly
  as the graph spells it; and when a requested term resolves to a non-empty canonical,
  the canonical and all its synonyms are in the result with their case preserved, not
  lowercased.
\<close>

theorem search_terms_lowercase_or_graph_spelling:
  "(x \<in> set (build_property_search_terms R D) \<longrightarrow>
      (x \<in> set (requested_lower R) \<and> lower x = x) \<or>
      (\<exists>(c, syns) \<in> set (flatten_categories D []). x = c \<or> x \<in> set syns)) \<and>
   (r \<in> set R \<and> strip r \<noteq> [] \<and>
    map_of (build_index (flatten_categories D []) []) (lower (strip r)) = Some c \<and> c \<noteq> [] \<longrightarrow>
      set (group_of (flatten_categories D []) c) \<subseteq> set (build_property_search_terms R D))"
  using search_term_origin[of x R D] resolved_group_included[of r R D c] by blast

text \<open>
  C1 (as amended), at the graph and request of the counterexample: \<open>"Tg"\<close> is in the
  result, is not lowercase, is a canonical of the graph, and its whole group is in the
  result.
\<close>

theorem search_terms_lowercase_or_graph_spelling_witness:
  "''Tg'' \<in> set (build_property_search_terms [''tg'']
       [(''_thermal'', JDict [(''Tg'', JList [JStr ''glass transition''])])]) \<and>
   lower ''Tg'' \<noteq> ''Tg'' \<and>
   (\<exists>(c, syns) \<in> set (flatten_categories [(''_thermal'', JDict [(''Tg'', JList [JStr ''glass transition''])])] []).
        ''Tg'' = c \<or> ''Tg'' \<in> set syns) \<and>
   set (group_of (flatten_categories [(''_thermal'', JDict [(''Tg'', JList [JStr ''glass transition''])])] []) ''Tg'')
     \<subseteq> set (build_property_search_terms [''tg'']
       [(''_thermal'', JDict [(''Tg'', JList [JStr ''glass transition''])])])"
proof -
  have h: "''Tg'' \<in> set (build_property_search_terms [''tg'']
       [(''_thermal'', JDict [(''Tg'', JList [JStr ''glass transition''])])])"
    by code_simp
  have n: "lower ''Tg'' \<noteq> ''Tg''"
    by code_simp
  have i: "map_of (build_index (flatten_categories
       [(''_thermal'', JDict [(''Tg'', JList [JStr ''glass transition''])])] []) []) (lower (strip ''tg'')) = Some ''Tg''"
    by code_simp
  have s: "strip ''tg'' \<noteq> []"
    by code_simp
  have m: "''tg'' \<in> set [''tg'']" and e: "''Tg'' \<noteq> []"
    by simp_all
  from search_terms_lowercase_or_graph_spelling[of "''Tg''" "[''tg'']"
      "[(''_thermal'', JDict [(''Tg'', JList [JStr ''glass transition''])])]" "''tg''" "''Tg''"] h n i s m e
  show ?thesis by blast
qed

text \<open>
  C2. A requested term that resolves to a canonical must bring the whole group of that
  canonical. The loop tests the canonical by truthiness, so a term that resolves to the
  empty canonical is treated as unresolved: for the graph
  \<open>{"_thermal": {"": ["Tg", "glass transition"]}}\<close> the index maps \<open>"tg"\<close> to the
  canonical \<open>""\<close>, and the request \<open>["Tg"]\<close> returns \<open>{"tg"}\<close> only, without
  \<open>"glass transition"\<close>. (For an unresolved term and for a non-empty canonical the
  claim holds: lemmas \<open>unresolved_term_included\<close> and \<open>resolved_group_included\<close>.)
\<close>

theorem empty_canonical_group_dropped:
  "map_of (build_index (flatten_categories
       [(''_thermal'', JDict [([], JList [JStr ''Tg'', JStr ''glass transition''])])] []) []) ''tg'' = Some [] \<and>
   build_property_search_terms [''Tg'']
       [(''_thermal'', JDict [([], JList [JStr ''Tg'', JStr ''glass transition''])])] = [''tg'']"
  by code_simp

text \<open>
  C3. Re-expanding an expanded set does not shrink it: whatever list \<open>R'\<close> enumerates
  the elements of \<open>expand(R, G)\<close>, the set \<open>expand(R', G)\<close> contains \<open>expand(R, G)\<close>.
\<close>

theorem reexpansion_does_not_shrink:
  assumes R': "set R' = set (build_property_search_terms R D)"
  shows "set (build_property_search_terms R D) \<subseteq> set (build_property_search_terms R' D)"
proof
  fix x
  let ?G = "flatten_categories D []"
  let ?idx = "build_index ?G []"
  assume xin: "x \<in> set (build_property_search_terms R D)"
  then obtain req where req: "req \<in> set (requested_lower R)" "x \<in> set (term_contribution ?idx ?G req)"
    unfolding in_search_terms_iff by blast
  from req(1) have st: "strip req = req" "lower req = req" "req \<noteq> []"
    using requested_lower_stripped by blast+
  have "\<exists>y \<in> set R'. strip y \<noteq> [] \<and> lower (strip y) = req"
  proof (cases "\<exists>c. map_of ?idx req = Some c \<and> c \<noteq> []")
    case False
    with req(2) have "x = req" by (auto simp: term_contribution_def split: option.splits if_splits)
    with xin R' have "req \<in> set R'" by simp
    with st show ?thesis by (intro bexI[of _ req]) simp_all
  next
    case True
    then obtain c where c: "map_of ?idx req = Some c" "c \<noteq> []" by blast
    from c(1) obtain syns where f: "find (claims req) ?G = Some (c, syns)"
      using index_find by blast
    then have m: "(c, syns) \<in> set ?G" and cl: "req = lower c \<or> req \<in> set (map lower syns)"
      using find_claims_D by blast+
    have "distinct (map fst ?G)" by (rule distinct_flatten_categories) simp
    with m have mo: "map_of ?G c = Some syns" by simp
    from cl obtain y where y: "y = c \<or> y \<in> set syns" "lower y = req" by auto
    from y(1) mo have "y \<in> set (group_of ?G c)" by (auto simp: set_group_of)
    with c req(1) have "y \<in> set (build_property_search_terms R D)"
      unfolding in_search_terms_iff by (intro bexI[of _ req]) (simp_all add: term_contribution_def)
    with R' have yin: "y \<in> set R'" by simp
    from y(2) st(1) have "strip (lower y) = lower y" by simp
    then have sy: "strip y = y" by (rule strip_of_lower_fix)
    from y(2) st(3) have "y \<noteq> []" by (auto simp: lower_def)
    with yin sy y(2) show ?thesis by (intro bexI[of _ y]) simp_all
  qed
  then obtain y where y: "y \<in> set R'" "strip y \<noteq> []" "lower (strip y) = req" by blast
  from y(1,2) have "lower (strip y) \<in> set (requested_lower R')"
    by (rule stripped_lower_in_requested)
  with y(3) have "req \<in> set (requested_lower R')" by simp
  with req(2) show "x \<in> set (build_property_search_terms R' D)"
    unfolding in_search_terms_iff by blast
qed

text \<open>
  C3 at a concrete graph, with the expanded set enumerated in another order.
\<close>

theorem reexpansion_does_not_shrink_witness:
  "set [''glass transition'', ''Tg''] = set (build_property_search_terms [''tg'']
       [(''_thermal'', JDict [(''Tg'', JList [JStr ''glass transition''])])]) \<and>
   set (build_property_search_terms [''tg'']
       [(''_thermal'', JDict [(''Tg'', JList [JStr ''glass transition''])])])
   \<subseteq> set (build_property_search_terms [''glass transition'', ''Tg'']
       [(''_thermal'', JDict [(''Tg'', JList [JStr ''glass transition''])])])"
proof -
  have h: "set [''glass transition'', ''Tg''] = set (build_property_search_terms [''tg'']
       [(''_thermal'', JDict [(''Tg'', JList [JStr ''glass transition''])])])"
    by code_simp
  from reexpansion_does_not_shrink[OF h] h show ?thesis by blast
qed

section \<open>Properties of the segmenter\<close>

lemma set_sub_build: "set (sub_build repl s p ms) \<subseteq> set s \<union> set repl"
proof (induction ms arbitrary: p)
  case Nil
  show ?case using set_drop_subset[of p s] by auto
next
  case (Cons a ms)
  obtain i m where a: "a = (i, m)" by (cases a)
  have "set (take (i - p) (drop p s)) \<subseteq> set s"
    using set_take_subset[of "i - p" "drop p s"] set_drop_subset[of p s] by blast
  with Cons.IH[of "pos m"] show ?case by (auto simp: a)
qed

lemma set_re_sub: "set (re_sub ic r repl s) \<subseteq> set s \<union> set repl"
  unfolding re_sub_def by (rule set_sub_build)

lemma finditer_lookbehind_none:
  assumes "\<forall>c \<in> set xs. \<not> in_charset cs c"
    and "case pv of None \<Rightarrow> True | Some c \<Rightarrow> \<not> in_charset cs c"
  shows "finditer ic (Seq (LookBehind cs) r) (MState p pv xs c) = []"
  using assms
proof (induction xs arbitrary: p pv c)
  case Nil
  then show ?case
    by (subst finditer.simps) (simp split: option.splits)
next
  case (Cons x xs)
  have nomatch: "rmatch ic (Seq (LookBehind cs) r) (MState p pv (x # xs) c) = []"
    using Cons.prems(2) by (simp split: option.splits)
  have "finditer ic (Seq (LookBehind cs) r) (MState (Suc p) (Some x) xs []) = []"
    using Cons.prems(1) by (intro Cons.IH) simp_all
  then show ?case
    unfolding finditer.simps[of ic "Seq (LookBehind cs) r" "MState p pv (x # xs) c"] nomatch
    by simp
qed

lemma re_split_no_break:
  assumes "\<forall>c \<in> set s. c \<notin> set ''.!?''"
  shows "re_split False SENTENCE_BREAK s = [s]"
proof -
  have "finditer False (Seq (LookBehind (COneOf ''.!?'')) (seqs [Plus CSpace, LookAhead (CRange CHR ''A'' CHR ''Z'')]))
          (MState 0 None s []) = []"
    using assms by (intro finditer_lookbehind_none) simp_all
  then show ?thesis
    by (simp add: re_split_def re_finditer_def SENTENCE_BREAK_def)
qed

lemma split_no_punctuation:
  assumes "\<forall>c \<in> set text. c \<notin> set ''.!?''"
  shows "length (split_into_sentences text) \<le> 1"
proof (cases "text = []")
  case True
  then show ?thesis by (simp add: split_into_sentences_def)
next
  case False
  let ?t = "re_sub False WS_RUN '' '' text"
  have "set ?t \<subseteq> set text \<union> set '' ''" by (rule set_re_sub)
  with assms have "\<forall>c \<in> set ?t. c \<notin> set ''.!?''" by auto
  then have "re_split False SENTENCE_BREAK ?t = [?t]" by (rule re_split_no_break)
  with False show ?thesis by (simp add: split_into_sentences_def Let_def)
qed

lemma split_fragments_long:
  assumes "f \<in> set (split_into_sentences text)"
  shows "15 < length (strip f)"
proof -
  from assms obtain p where "f = strip p" "15 < length (strip p)"
    by (auto simp: split_into_sentences_def Let_def split: if_splits)
  then show ?thesis by (simp add: strip_strip)
qed

text \<open>
  C5. Segmenting the empty string yields no fragment; a text without any of the
  characters \<open>.\<close>, \<open>!\<close>, \<open>?\<close> yields at most one fragment; and every fragment returned,
  for any text, has trimmed length greater than 15.
\<close>

theorem segmenter_contract:
  "split_into_sentences [] = [] \<and>
   ((\<forall>c \<in> set s. c \<notin> set ''.!?'') \<longrightarrow> length (split_into_sentences s) \<le> 1) \<and>
   (\<forall>f \<in> set (split_into_sentences s'). 15 < length (strip f))"
  using split_no_punctuation[of s] split_fragments_long[of _ s']
  by (simp add: split_into_sentences_def)

text \<open>
  C5 on a text without sentence punctuation: one fragment, longer than 15.
\<close>

theorem segmenter_contract_witness:
  "split_into_sentences ''Tg of the polymer was high'' = [''Tg of the polymer was high''] \<and>
   length (split_into_sentences ''Tg of the polymer was high'') \<le> 1 \<and>
   15 < length (strip ''Tg of the polymer was high'')"
proof -
  have h: "split_into_sentences ''Tg of the polymer was high'' = [''Tg of the polymer was high'']"
    by code_simp
  have n: "\<forall>c \<in> set ''Tg of the polymer was high''. c \<notin> set ''.!?''"
    by simp
  from segmenter_contract[of "''Tg of the polymer was high''" "''Tg of the polymer was high''"] n
  have "length (split_into_sentences ''Tg of the polymer was high'') \<le> 1"
    and "\<forall>f \<in> set (split_into_sentences ''Tg of the polymer was high''). 15 < length (strip f)"
    by blast+
  with h show ?thesis by simp
qed

section \<open>Properties of the detector\<close>

lemma has_valid_triple_iff:
  "has_valid_triple s T \<longleftrightarrow>
     (find_whole_word s POLYMER_TERMS @ regex_poly_patterns s \<noteq> [] \<and>
      find_whole_word s T \<noteq> [] \<and>
      (re_search True NUM_UNIT s \<noteq> None \<or> re_search False NUM_ONLY s \<noteq> None))"
  by (simp add: has_valid_triple_def Let_def)

text \<open>
  C4. \<open>_has_valid_triple\<close> returns true exactly when the polymer signal, the property
  signal and the value signal all hold for the sentence; it is false as soon as one of
  them is absent, whatever the other two.
\<close>

theorem triple_needs_all_three_signals:
  "has_valid_triple s T \<longleftrightarrow> polymer_signal s \<and> property_signal s T \<and> value_signal s"
  by (simp add: has_valid_triple_iff polymer_signal_def property_signal_def value_signal_def)

text \<open>
  C4 on a sentence with a polymer and a property term but no number: it does not pass.
\<close>

theorem triple_needs_all_three_signals_witness:
  "polymer_signal ''The polymer showed a high Tg in this study.'' \<and>
   property_signal ''The polymer showed a high Tg in this study.'' [''tg''] \<and>
   \<not> value_signal ''The polymer showed a high Tg in this study.'' \<and>
   \<not> has_valid_triple ''The polymer showed a high Tg in this study.'' [''tg'']"
proof -
  have a: "polymer_signal ''The polymer showed a high Tg in this study.''"
    by code_simp
  have b: "property_signal ''The polymer showed a high Tg in this study.'' [''tg'']"
    by code_simp
  have c: "\<not> value_signal ''The polymer showed a high Tg in this study.''"
    by code_simp
  from triple_needs_all_three_signals[of "''The polymer showed a high Tg in this study.''" "[''tg'']"] a b c
  show ?thesis by blast
qed

lemma find_whole_word_nonempty_iff:
  "find_whole_word s T \<noteq> [] \<longleftrightarrow>
     (\<exists>t \<in> set T. re_search False (whole_word_pattern t) (lower s) \<noteq> None)"
  by (simp add: find_whole_word_def Let_def filter_empty_conv)

lemma whole_word_pattern_lower: "whole_word_pattern (lower t) = whole_word_pattern t"
  by (simp add: whole_word_pattern_def lower_lower)

lemma find_whole_word_lower_terms:
  assumes "set T' = set (map lower T)"
  shows "find_whole_word s T' \<noteq> [] \<longleftrightarrow> find_whole_word s T \<noteq> []"
proof -
  have "(\<exists>t' \<in> set T'. re_search False (whole_word_pattern t') (lower s) \<noteq> None) \<longleftrightarrow>
        (\<exists>t \<in> set T. re_search False (whole_word_pattern (lower t)) (lower s) \<noteq> None)"
    using assms by auto
  then show ?thesis
    by (simp add: find_whole_word_nonempty_iff whole_word_pattern_lower)
qed

text \<open>
  C9. Triple detection does not depend on the case of the property terms: whatever list
  \<open>T'\<close> enumerates the lowercase forms of the terms of \<open>T\<close>, \<open>_has_valid_triple\<close> gives
  the same answer for \<open>T'\<close> as for \<open>T\<close>.
\<close>

theorem triple_detection_case_invariant:
  assumes "set T' = set (map lower T)"
  shows "has_valid_triple s T' = has_valid_triple s T"
  using find_whole_word_lower_terms[OF assms, of s]
  by (simp only: has_valid_triple_iff)

text \<open>
  C9 for mixed-case terms and their lowercase forms.
\<close>

theorem triple_detection_case_invariant_witness:
  "set [''tg'', ''glass transition''] = set (map lower [''Tg'', ''Glass Transition'', ''TG'']) \<and>
   has_valid_triple ''The polymer showed a Tg of 105 C.'' [''tg'', ''glass transition''] =
   has_valid_triple ''The polymer showed a Tg of 105 C.'' [''Tg'', ''Glass Transition'', ''TG'']"
proof -
  have h: "set [''tg'', ''glass transition''] = set (map lower [''Tg'', ''Glass Transition'', ''TG''])"
    by code_simp
  from triple_detection_case_invariant[OF h] h show ?thesis by blast
qed

text \<open>
  C10. The unit pattern is not subsumed by the bare-number pattern: in a sentence with
  \<open>105kDa\<close> (number and unit written together) \<open>NUM_UNIT\<close> matches and \<open>NUM_ONLY\<close>
  does not, and the sentence holds a triple.
\<close>

theorem unit_pattern_not_subsumed:
  "re_search True NUM_UNIT ''The polymer sample had Mw of 105kDa overall'' \<noteq> None \<and>
   re_search False NUM_ONLY ''The polymer sample had Mw of 105kDa overall'' = None \<and>
   has_valid_triple ''The polymer sample had Mw of 105kDa overall'' [''mw'']"
  by code_simp

text \<open>
  C10 in the existential form of the claim: some sentence is matched by \<open>NUM_UNIT\<close>
  only and has the value signal.
\<close>

theorem unit_pattern_not_subsumed_witness:
  "\<exists>s. re_search True NUM_UNIT s \<noteq> None \<and> re_search False NUM_ONLY s = None \<and>
       has_valid_triple s [''mw'']"
  using unit_pattern_not_subsumed by blast

section \<open>Properties of the filter\<close>

lemma first_triple_iff:
  "first_triple sents T =
     (if \<exists>s \<in> set sents. has_valid_triple s T
      then (True, ''found (polymer, property, value) triple'')
      else (False, ''no matching (polymer, property, value) triples''))"
  by (induction sents) auto

lemma first_triple_stops:
  "has_valid_triple s T \<Longrightarrow> \<forall>x \<in> set pre. \<not> has_valid_triple x T \<Longrightarrow>
   first_triple (pre @ s # post) T = first_triple [s] T"
  by (induction pre) auto

text \<open>
  C6. \<open>is_paper_with_property_triples\<close> passes exactly when some sentence of the
  segmenter holds a triple; when it does not pass, it returns false with the reason
  \<open>no matching (polymer, property, value) triples\<close>; and the loop returns true at a
  qualifying sentence whatever sentences follow it.
\<close>

theorem paper_passes_iff_some_sentence_qualifies:
  "(fst (is_paper_with_property_triples full_text T) \<longleftrightarrow>
      (\<exists>s \<in> set (split_into_sentences full_text). has_valid_triple s T)) \<and>
   (\<not> fst (is_paper_with_property_triples full_text T) \<longrightarrow>
      is_paper_with_property_triples full_text T = (False, ''no matching (polymer, property, value) triples'')) \<and>
   (has_valid_triple s T \<longrightarrow>
      first_triple (pre @ s # post) T = (True, ''found (polymer, property, value) triple''))"
  by (simp add: is_paper_with_property_triples_def first_triple_iff)

text \<open>
  C6 on a text with no polymer, no property and no number.
\<close>

theorem paper_passes_iff_some_sentence_qualifies_witness:
  "is_paper_with_property_triples ''The sample was characterized using standard methods.'' [''tg''] =
     (False, ''no matching (polymer, property, value) triples'')"
proof -
  have h: "\<not> fst (is_paper_with_property_triples ''The sample was characterized using standard methods.'' [''tg''])"
    by code_simp
  from paper_passes_iff_some_sentence_qualifies[of "''The sample was characterized using standard methods.''" "[''tg'']"] h
  show ?thesis by blast
qed

lemma filter_loop_acc:
  "filter_loop parse T ps (pa, fa) =
     (pa @ fst (filter_loop parse T ps ([], [])), fa @ snd (filter_loop parse T ps ([], [])))"
proof (induction ps arbitrary: pa fa)
  case Nil
  show ?case by simp
next
  case (Cons p ps)
  have step: "\<exists>d1 d2. \<forall>pa fa. filter_loop parse T (p # ps) (pa, fa) = filter_loop parse T ps (pa @ d1, fa @ d2)"
  proof (cases "parse p")
    case (Inl e)
    then have "\<forall>pa fa. filter_loop parse T (p # ps) (pa, fa) =
        filter_loop parse T ps (pa @ [], fa @ [(p, ''parse error: '' @ e)])" by simp
    then show ?thesis by blast
  next
    case (Inr result)
    obtain ok reason where ok: "is_paper_with_property_triples
         (build_full_text (case meta result of None \<Rightarrow> [] | Some d \<Rightarrow> d)
            (case sections result of None \<Rightarrow> [] | Some d \<Rightarrow> d)
            (case tables result of None \<Rightarrow> [] | Some l \<Rightarrow> l)) T = (ok, reason)"
      by (meson surj_pair)
    show ?thesis
    proof (cases ok)
      case True
      with Inr ok have "\<forall>pa fa. filter_loop parse T (p # ps) (pa, fa) =
        filter_loop parse T ps (pa @ [p], fa @ [])" by (simp add: Let_def)
      then show ?thesis by blast
    next
      case False
      with Inr ok have "\<forall>pa fa. filter_loop parse T (p # ps) (pa, fa) =
        filter_loop parse T ps (pa @ [], fa @ [(p, reason)])" by (simp add: Let_def)
      then show ?thesis by blast
    qed
  qed
  then obtain d1 d2 where d: "\<And>pa fa. filter_loop parse T (p # ps) (pa, fa) = filter_loop parse T ps (pa @ d1, fa @ d2)"
    by blast
  have "filter_loop parse T (p # ps) (pa, fa) = filter_loop parse T ps (pa @ d1, fa @ d2)" by (rule d)
  also have "\<dots> = ((pa @ d1) @ fst (filter_loop parse T ps ([], [])), (fa @ d2) @ snd (filter_loop parse T ps ([], [])))"
    by (rule Cons.IH)
  finally have l: "filter_loop parse T (p # ps) (pa, fa) =
      (pa @ d1 @ fst (filter_loop parse T ps ([], [])), fa @ d2 @ snd (filter_loop parse T ps ([], [])))" by simp
  have "filter_loop parse T (p # ps) ([], []) = filter_loop parse T ps ([] @ d1, [] @ d2)" by (rule d)
  also have "\<dots> = (([] @ d1) @ fst (filter_loop parse T ps ([], [])), ([] @ d2) @ snd (filter_loop parse T ps ([], [])))"
    by (rule Cons.IH)
  finally have r: "filter_loop parse T (p # ps) ([], []) =
      (d1 @ fst (filter_loop parse T ps ([], [])), d2 @ snd (filter_loop parse T ps ([], [])))" by simp
  show ?case unfolding l r by simp
qed

lemma filter_loop_append:
  "filter_loop parse T (ps1 @ ps2) (pa, fa) = filter_loop parse T ps2 (filter_loop parse T ps1 (pa, fa))"
proof (induction ps1 arbitrary: pa fa)
  case Nil
  show ?case by simp
next
  case (Cons p ps1)
  show ?case
    by (cases "parse p") (auto simp: Cons.IH Let_def split: prod.splits)
qed

lemma filter_loop_parse_error:
  assumes "parse p = Inl e"
  shows "filter_loop parse T (ps1 @ p # ps2) ([], []) =
     (fst (filter_loop parse T ps1 ([], [])) @ fst (filter_loop parse T ps2 ([], [])),
      snd (filter_loop parse T ps1 ([], [])) @ [(p, ''parse error: '' @ e)] @ snd (filter_loop parse T ps2 ([], [])))"
proof -
  obtain pa fa where r1: "filter_loop parse T ps1 ([], []) = (pa, fa)" by (meson surj_pair)
  have "filter_loop parse T (ps1 @ p # ps2) ([], []) = filter_loop parse T (p # ps2) (pa, fa)"
    by (simp add: filter_loop_append r1)
  also have "\<dots> = filter_loop parse T ps2 (pa, fa @ [(p, ''parse error: '' @ e)])"
    using assms by simp
  also have "\<dots> = (pa @ fst (filter_loop parse T ps2 ([], [])),
       (fa @ [(p, ''parse error: '' @ e)]) @ snd (filter_loop parse T ps2 ([], [])))"
    by (rule filter_loop_acc)
  finally show ?thesis by (simp add: r1)
qed

lemma filter_papers_loop:
  "filter_papers parse ps R F =
     filter_loop parse
       (let st = build_property_search_terms R (load_polymer_synonyms F)
        in if st = [] then fold set_add (map lower (filter (\<lambda>t. strip t \<noteq> []) R)) [] else st)
       ps ([], [])"
  by (cases ps) (simp_all add: filter_papers_def Let_def)

text \<open>
  C8. A document whose parse raises is recorded in the failing list with the reason
  \<open>parse error: \<close> followed by the message of the exception, and the documents
  before and after it are filtered exactly as they are without it: the passing and
  failing lists are those of the two parts of the batch, with the failed document
  between them.
\<close>

theorem parse_error_isolated:
  assumes "parse p = Inl e"
  shows "filter_papers parse (ps1 @ p # ps2) R F =
     (fst (filter_papers parse ps1 R F) @ fst (filter_papers parse ps2 R F),
      snd (filter_papers parse ps1 R F) @ [(p, ''parse error: '' @ e)] @ snd (filter_papers parse ps2 R F))"
  unfolding filter_papers_loop using assms by (rule filter_loop_parse_error)

text \<open>
  C8 on a batch of three documents, the second of which fails to parse.
\<close>

theorem parse_error_isolated_witness:
  "filter_papers
     (\<lambda>p. if p = ''bad.html'' then Inl ''malformed''
          else if p = ''a.html''
          then Inr \<lparr>meta = Some [(''title'', ''A study'')],
                    sections = Some [(''Results'', ''The polymer showed a Tg of 105 C in this study.'')],
                    tables = Some []\<rparr>
          else Inr \<lparr>meta = None, sections = None, tables = None\<rparr>)
     [''a.html'', ''bad.html'', ''c.html''] [''Tg''] None =
   ([''a.html''],
    [(''bad.html'', ''parse error: malformed''),
     (''c.html'', ''no matching (polymer, property, value) triples'')])"
  (is "filter_papers ?parse _ _ _ = _")
proof -
  have h0: "?parse ''bad.html'' = Inl ''malformed''" by simp
  have h1: "filter_papers ?parse [''a.html''] [''Tg''] None = ([''a.html''], [])"
    by code_simp
  have h2: "filter_papers ?parse [''c.html''] [''Tg''] None =
      ([], [(''c.html'', ''no matching (polymer, property, value) triples'')])"
    by code_simp
  from parse_error_isolated[of ?parse "''bad.html''" "''malformed''" "[''a.html'']" "[''c.html'']" "[''Tg'']" None, OF h0]
  show ?thesis unfolding h1 h2 by simp
qed

end
